theory Spec2Isabelle
  imports Complex_Main "HOL-Library.Word" "HOL-Library.AList"
begin

unbundle bit_operations_syntax

section \<open>JavaScript numbers and typed arrays\<close>

text \<open>
  The library works on integer-valued JavaScript numbers, modelled as \<open>int\<close>. The
  bitwise operators of JavaScript first convert their operands to 32-bit two's
  complement (\<open>ToInt32\<close>) and return a signed 32-bit result; the shift count is taken
  modulo 32. The remainder operator \<open>%\<close> truncates towards zero (the result has the
  sign of the dividend). A \<open>Uint8Array\<close> is a list of bytes: a store reduces the
  number modulo 256, a store outside the array is ignored, and a read outside the array
  gives \<open>undefined\<close>, which the bitwise operators convert to 0.
\<close>

type_synonym byte = "8 word"
type_synonym buffer = "byte list"

definition BYTE_LEN :: int where
  "BYTE_LEN = 8"

definition BYTE_SIZE :: int where
  "BYTE_SIZE = 2 ^ nat BYTE_LEN"

definition ToInt32 :: "int \<Rightarrow> 32 word" where
  "ToInt32 n = word_of_int n"

definition js_shl :: "int \<Rightarrow> int \<Rightarrow> int" where
  "js_shl x s = sint (push_bit (nat (s mod 32)) (ToInt32 x))"

definition js_shr :: "int \<Rightarrow> int \<Rightarrow> int" where
  "js_shr x s = sint (signed_drop_bit (nat (s mod 32)) (ToInt32 x))"

definition js_and :: "int \<Rightarrow> int \<Rightarrow> int" where
  "js_and x y = sint (ToInt32 x AND ToInt32 y)"

definition js_or :: "int \<Rightarrow> int \<Rightarrow> int" where
  "js_or x y = sint (ToInt32 x OR ToInt32 y)"

text \<open>
  \<open>n % m\<close> on integers; the divisor is 8 or 256 wherever the program takes a remainder.
\<close>

definition js_rem :: "int \<Rightarrow> int \<Rightarrow> int" where
  "js_rem n m = sgn n * (\<bar>n\<bar> mod \<bar>m\<bar>)"

text \<open>
  \<open>Math.ceil(a / b)\<close> for integers \<open>a\<close> and \<open>b\<close> (lemma \<open>ceil_div_ceiling\<close> below).
\<close>

definition ceil_div :: "int \<Rightarrow> int \<Rightarrow> int" where
  "ceil_div a b = - ((- a) div b)"

definition ToUint8 :: "int \<Rightarrow> byte" where
  "ToUint8 n = word_of_int n"

text \<open>
  \<open>b[k]\<close> as an operand of \<open>&\<close>, and \<open>b[k] |= e\<close>, on a \<open>Uint8Array\<close> \<open>b\<close>.
\<close>

definition u8_read :: "buffer \<Rightarrow> int \<Rightarrow> int" where
  "u8_read b k = (if 0 \<le> k \<and> k < int (length b) then uint (b ! nat k) else 0)"

definition u8_or_assign :: "buffer \<Rightarrow> int \<Rightarrow> int \<Rightarrow> buffer" where
  "u8_or_assign b k e =
     (if 0 \<le> k \<and> k < int (length b)
      then b[nat k := ToUint8 (js_or (uint (b ! nat k)) e)]
      else b)"

text \<open>
  Every \<open>throw\<close> of the library that a call can reach, and the two exceptions of the
  language that its code can raise (\<open>RangeError\<close> for a typed array of a length that
  cannot be allocated, \<open>TypeError\<close> for a property read on \<open>undefined\<close>, for a BigInt
  next to a number and for a Symbol converted to a string), is a value of \<open>error\<close>.
\<close>

datatype error =
    InvalidNameOrSize
  | StructNullOrUndefined
  | NotUint8Array
  | UnexpectedLength int int
  | RangeError
  | TypeError

text \<open>
  \<open>new Uint8Array(n)\<close> without a limit on the length: a negative length raises, every
  other length gives that many zero bytes. The allocation with the engine's limit is
  \<open>new_Uint8Array_max\<close> below.
\<close>

definition new_Uint8Array :: "int \<Rightarrow> error + buffer" where
  "new_Uint8Array n = (if n < 0 then Inl RangeError else Inr (replicate (nat n) 0))"

section \<open>The bit buffer engine\<close>

text \<open>
  This section has \<open>bufferExtract\<close> and \<open>insertBuffer\<close> with cursors that are exact
  integers and an allocation without limit: what the program computes as long as its
  cursors stay within \<open>2^53\<close> and the result can be allocated. The next section has
  the same two functions on the numbers of the language, where a cursor is rounded and
  a loop may not return, and lemmas \<open>bufferExtract_ieee_exact\<close> and
  \<open>insertBuffer_while_ieee_exact\<close> relate the two.
\<close>

text \<open>
  The helper \<open>mod(n, m)\<close> of the source, \<open>((n % m) + m) % m\<close>.
\<close>

definition mod_js :: "int \<Rightarrow> int \<Rightarrow> int" where
  "mod_js n m = js_rem (js_rem n m + m) m"

text \<open>
  \<open>mod(BYTE_LEN - i, BYTE_LEN) || 8\<close>: the number of bits from position \<open>i\<close> to the end
  of its byte. The loop of \<open>bufferExtract\<close> computes it for both cursors (\<open>di\<close>, \<open>dj\<close>).
  One iteration of the loop is \<open>bufferExtract_body\<close>, on the state \<open>(extract, i, j)\<close>.
\<close>

definition bits_right :: "int \<Rightarrow> int" where
  "bits_right i = (let r = mod_js (BYTE_LEN - i) BYTE_LEN in if r = 0 then 8 else r)"

definition bufferExtract_body :: "buffer \<Rightarrow> int \<Rightarrow> buffer \<times> int \<times> int \<Rightarrow> buffer \<times> int \<times> int" where
  "bufferExtract_body buffer endPtr s =
     (case s of (extract, i, j) \<Rightarrow>
        let di = bits_right i;
            dj = bits_right j;
            numBits = min (min di dj) (endPtr - j);
            mask = js_shl (js_shl 1 numBits - 1) (dj - numBits);
            e = js_and (u8_read buffer (j div BYTE_LEN)) mask;
            e' = (if di \<ge> dj then js_shl e (di - dj) else js_shr e (dj - di))
        in (u8_or_assign extract (i div BYTE_LEN) e', i + numBits, j + numBits))"

lemma js_rem_8: "js_rem k 8 = (if 0 \<le> k then k mod 8 else - ((- k) mod 8))"
  by (simp add: js_rem_def sgn_if)

lemma mod_js_8: "mod_js n 8 = n mod 8"
proof -
  have b: "- 8 < js_rem n 8" "js_rem n 8 < 8"
    unfolding js_rem_8 by (simp_all, linarith+)
  have "js_rem (js_rem n 8 + 8) 8 = (js_rem n 8 + 8) mod 8"
    using b by (subst js_rem_8) simp
  also have "\<dots> = n mod 8"
  proof (cases "0 \<le> n")
    case True
    then show ?thesis by (simp add: js_rem_8)
  next
    case False
    then show ?thesis by (simp add: js_rem_8 mod_minus_eq)
  qed
  finally show ?thesis by (simp add: mod_js_def)
qed

lemma bits_right_eq: "bits_right i = 8 - i mod 8"
proof -
  have "(8 - i) mod 8 = (- i + 8) mod 8"
    by simp
  also have "\<dots> = (- i) mod 8"
    by (simp only: mod_add_self2)
  also have "\<dots> = (if i mod 8 = 0 then 0 else 8 - i mod 8)"
    by (simp add: zmod_zminus1_eq_if)
  finally have "(8 - i) mod 8 = (if i mod 8 = 0 then 0 else 8 - i mod 8)" .
  moreover have "i mod 8 \<noteq> 8"
    using pos_mod_bound [of 8 i] by linarith
  ultimately show ?thesis
    by (simp add: bits_right_def BYTE_LEN_def mod_js_8 Let_def)
qed

lemma bits_right_bounds: "1 \<le> bits_right i" "bits_right i \<le> 8"
proof -
  have "0 \<le> i mod 8" "i mod 8 < 8"
    by simp_all
  then show "1 \<le> bits_right i" "bits_right i \<le> 8"
    unfolding bits_right_eq by linarith+
qed

text \<open>
  The loop \<open>while (j < endPtr)\<close> of \<open>bufferExtract\<close>. It terminates because \<open>numBits\<close>
  is at least 1 while the loop runs.
\<close>

function bufferExtract_loop :: "buffer \<Rightarrow> buffer \<Rightarrow> int \<Rightarrow> int \<Rightarrow> int \<Rightarrow> buffer" where
  "bufferExtract_loop buffer extract i j endPtr =
     (if j < endPtr
      then (case bufferExtract_body buffer endPtr (extract, i, j) of
              (extract', i', j') \<Rightarrow> bufferExtract_loop buffer extract' i' j' endPtr)
      else extract)"
  by pat_completeness auto
termination
proof (relation "measure (\<lambda>(buffer, extract, i, j, endPtr). nat (endPtr - j))", goal_cases)
  case 1
  show ?case by simp
next
  case (2 buf ext i j endPtr ext' y i' j')
  have "j' = j + min (min (bits_right i) (bits_right j)) (endPtr - j)"
    using 2(2,3) by (auto simp: bufferExtract_body_def Let_def)
  moreover have "1 \<le> min (min (bits_right i) (bits_right j)) (endPtr - j)"
    using 2(1) bits_right_bounds(1) [of i] bits_right_bounds(1) [of j] by simp
  ultimately show ?case
    using 2(1) by simp
qed

declare bufferExtract_loop.simps [simp del]

text \<open>
  \<open>bufferExtract(buffer, startPtr, size)\<close>. Allocating the result raises a \<open>RangeError\<close>
  when \<open>Math.ceil(size / BYTE_LEN)\<close> is negative.
\<close>

definition bufferExtract :: "buffer \<Rightarrow> int \<Rightarrow> int \<Rightarrow> error + buffer" where
  "bufferExtract buffer startPtr sz =
     (case new_Uint8Array (ceil_div sz BYTE_LEN) of
        Inl err \<Rightarrow> Inl err
      | Inr extract \<Rightarrow>
          let i = mod_js (BYTE_LEN - sz) BYTE_LEN;
              j = startPtr;
              endPtr = j + sz
          in Inr (bufferExtract_loop buffer extract i j endPtr))"

text \<open>
  One iteration of the loop of \<open>insertBuffer\<close>, on the state \<open>(b1, i, j)\<close>; then
  \<open>insertBuffer(b0, b1, i, j)\<close> itself, which is that loop and returns the updated \<open>b1\<close>.
  The caller passes 0 for \<open>j\<close> where the source relies on the default.
\<close>

definition insertBuffer_body :: "buffer \<Rightarrow> buffer \<times> int \<times> int \<Rightarrow> buffer \<times> int \<times> int" where
  "insertBuffer_body b0 s =
     (case s of (b1, i, j) \<Rightarrow>
        let d0 = BYTE_LEN - js_rem j BYTE_LEN;
            d1 = BYTE_LEN - js_rem i BYTE_LEN;
            numBits = min d0 d1;
            extract = u8_read b0 (j div BYTE_LEN);
            extract' = js_and extract ((js_shl 1 d0 - 1) - (js_shl 1 (d0 - numBits) - 1));
            v = (if d1 - d0 \<ge> 0 then js_shl extract' (d1 - d0) else js_shr extract' (d0 - d1))
        in (u8_or_assign b1 (i div BYTE_LEN) v, i + numBits, j + numBits))"

lemma js_rem_8_less: "js_rem j 8 < 8"
proof -
  have "0 \<le> j mod 8" "0 \<le> (- j) mod 8" "j mod 8 < 8"
    by simp_all
  then show ?thesis
    unfolding js_rem_8 by (simp, linarith)
qed

function insertBuffer :: "buffer \<Rightarrow> buffer \<Rightarrow> int \<Rightarrow> int \<Rightarrow> buffer" where
  "insertBuffer b0 b1 i j =
     (if j < int (length b0) * BYTE_LEN
      then (case insertBuffer_body b0 (b1, i, j) of (b1', i', j') \<Rightarrow> insertBuffer b0 b1' i' j')
      else b1)"
  by pat_completeness auto
termination
proof (relation "measure (\<lambda>(b0, b1, i, j). nat (int (length b0) * BYTE_LEN - j))", goal_cases)
  case 1
  show ?case by simp
next
  case (2 b0 b1 i j b1' y i' j')
  have "j' = j + min (8 - js_rem j 8) (8 - js_rem i 8)"
    using 2(2,3) by (auto simp: insertBuffer_body_def Let_def BYTE_LEN_def)
  moreover have "1 \<le> min (8 - js_rem j 8) (8 - js_rem i 8)"
    using js_rem_8_less [of i] js_rem_8_less [of j] by simp
  ultimately show ?case
    using 2(1) by simp
qed

declare insertBuffer.simps [simp del]

section \<open>The bit buffer engine on IEEE doubles\<close>

text \<open>
  A JavaScript number is an IEEE 754 double: an integer of magnitude up to \<open>2^53\<close> is
  held exactly, a larger one is rounded to 53 significant bits, to the nearest
  representable value, ties to the even significand. \<open>double_round\<close> is that rounding on
  integers (magnitudes from \<open>2^1024\<close> on, where a double overflows, are not modelled), and
  \<open>num_add\<close>, \<open>num_sub\<close>, \<open>num_mul\<close> are \<open>+\<close>, \<open>-\<close> and \<open>*\<close> on numbers. Division by
  8, \<open>Math.floor\<close>, \<open>Math.ceil\<close> and \<open>%\<close> are exact on doubles.
\<close>

fun bit_length :: "nat \<Rightarrow> nat" where
  "bit_length n = (if n = 0 then 0 else Suc (bit_length (n div 2)))"

declare bit_length.simps [simp del]

definition double_round :: "int \<Rightarrow> int" where
  "double_round n =
     (let a = nat \<bar>n\<bar>;
          e = bit_length a - 53;
          q = a div 2 ^ e;
          r = a mod 2 ^ e;
          q' = (if 2 * r > 2 ^ e \<or> (2 * r = 2 ^ e \<and> odd q) then q + 1 else q)
      in sgn n * int (q' * 2 ^ e))"

definition num_add :: "int \<Rightarrow> int \<Rightarrow> int" where
  "num_add a b = double_round (a + b)"

definition num_sub :: "int \<Rightarrow> int \<Rightarrow> int" where
  "num_sub a b = double_round (a - b)"

definition num_mul :: "int \<Rightarrow> int \<Rightarrow> int" where
  "num_mul a b = double_round (a * b)"

text \<open>
  \<open>new Uint8Array(n)\<close> raises a \<open>RangeError\<close> for a negative length and for a length
  above the largest typed array that the engine allocates, \<open>maxLen\<close>, a parameter of
  the model (at most \<open>2^53 - 1\<close> by the language standard).
\<close>

definition new_Uint8Array_max :: "int \<Rightarrow> int \<Rightarrow> error + buffer" where
  "new_Uint8Array_max maxLen n =
     (if n < 0 \<or> maxLen < n then Inl RangeError else Inr (replicate (nat n) 0))"









section \<open>Values and type descriptors\<close>

text \<open>
  The JavaScript values that the serializers of the library take and return: numbers
  (integer-valued, or \<open>NaN\<close>), BigInts, booleans, \<open>null\<close>, \<open>undefined\<close>, plain objects
  (a list of own properties in insertion order) and functions, which a property read
  finds on the built-in prototypes. Strings are left out, and with them the built-in type
  \<open>cvar.char\<close>.
\<close>

datatype jsval =
    Undefined
  | Null
  | Boolean bool
  | Number int
  | NaN
  | BigInt int
  | Object "(string \<times> jsval) list"
  | Function

text \<open>
  \<open>ToNumber\<close>, with \<open>None\<close> for \<open>NaN\<close>. A BigInt operand next to a number operand raises
  a \<open>TypeError\<close>; an object without \<open>valueOf\<close> of its own converts to \<open>NaN\<close>.
\<close>

fun ToNumber :: "jsval \<Rightarrow> error + int option" where
  "ToNumber Undefined = Inr None"
| "ToNumber Null = Inr (Some 0)"
| "ToNumber (Boolean b) = Inr (Some (if b then 1 else 0))"
| "ToNumber (Number n) = Inr (Some n)"
| "ToNumber NaN = Inr None"
| "ToNumber (BigInt n) = Inl TypeError"
| "ToNumber (Object kvs) = Inr None"
| "ToNumber Function = Inr None"

text \<open>
  An operand of \<open>>>\<close> converts \<open>NaN\<close> to 0, and \<open>NaN % m\<close> is \<open>NaN\<close>, which a \<open>Uint8Array\<close>
  stores as 0: in the serializers below a \<open>NaN\<close> operand always ends as the byte 0, so
  it is taken as the number 0 from the start.
\<close>

definition operand :: "jsval \<Rightarrow> error + int" where
  "operand v = (case ToNumber v of Inl err \<Rightarrow> Inl err | Inr None \<Rightarrow> Inr 0 | Inr (Some n) \<Rightarrow> Inr n)"

fun truthy :: "jsval \<Rightarrow> bool" where
  "truthy Undefined = False"
| "truthy Null = False"
| "truthy (Boolean b) = b"
| "truthy (Number n) = (n \<noteq> 0)"
| "truthy NaN = False"
| "truthy (BigInt n) = (n \<noteq> 0)"
| "truthy (Object kvs) = True"
| "truthy Function = True"

text \<open>
  \<open>object[name]\<close> is the property read of the language: it finds own properties and those
  of the prototype chain, and raises a \<open>TypeError\<close> on \<open>undefined\<close> and \<open>null\<close>. What the
  prototypes hold belongs to the realm the program runs in, so the property read is a
  parameter of the model, of type \<open>property_read\<close>.
\<close>

type_synonym property_read = "jsval \<Rightarrow> string \<Rightarrow> error + jsval"

text \<open>
  A \<open>CType\<close> carries its symbol (the description of \<open>Symbol(name)\<close>), its size in bits
  and its two conversion closures. A
  \<open>Struct\<close> is a \<open>CType\<close> whose closures are fixed by its member list
  (\<open>serialize_of\<close> and \<open>deserialize_of\<close> below).
\<close>

datatype ctype =
    CType (enum_sym: string) (csize: int)
      (serialize_fn: "jsval \<Rightarrow> error + buffer") (deserialize_fn: "buffer \<Rightarrow> error + jsval")
  | Struct (enum_sym: string) (csize: int) (members: "(string \<times> ctype) list")

definition default_serialize :: "jsval \<Rightarrow> error + buffer" where
  "default_serialize data =
     (case operand data of Inl err \<Rightarrow> Inl err | Inr n \<Rightarrow> Inr [ToUint8 (js_rem n BYTE_SIZE)])"

definition default_deserialize :: "buffer \<Rightarrow> error + jsval" where
  "default_deserialize bytes = (case bytes of [] \<Rightarrow> Inr Undefined | b # _ \<Rightarrow> Inr (Number (uint b)))"

definition falsy_name :: "string option \<Rightarrow> bool" where
  "falsy_name name = (case name of None \<Rightarrow> True | Some s \<Rightarrow> s = [])"

definition falsy_size :: "int option \<Rightarrow> bool" where
  "falsy_size sz = (case sz of None \<Rightarrow> True | Some n \<Rightarrow> n = 0)"

text \<open>
  The constructor of \<open>CType\<close>. An argument that the caller leaves out is \<open>None\<close>; the
  closures have defaults.
\<close>

definition CType_new ::
  "string option \<Rightarrow> int option \<Rightarrow> (jsval \<Rightarrow> error + buffer) option \<Rightarrow>
     (buffer \<Rightarrow> error + jsval) option \<Rightarrow> error + ctype" where
  "CType_new name sz ser des =
     (if falsy_name name \<or> falsy_size sz then Inl InvalidNameOrSize
      else Inr (CType (the name) (the sz)
                  (case ser of None \<Rightarrow> default_serialize | Some f \<Rightarrow> f)
                  (case des of None \<Rightarrow> default_deserialize | Some f \<Rightarrow> f)))"

text \<open>
  The constructor of \<open>Struct\<close>: the size is the sum of the member sizes, checked by the
  constructor of \<open>CType\<close>. The constructor also enters the struct in the table
  \<open>structs\<close>, which nothing else in the library reads; the table is not part of the model.
\<close>

definition Struct_new :: "string option \<Rightarrow> (string \<times> ctype) list \<Rightarrow> error + ctype" where
  "Struct_new name ms =
     (let sz = fold (\<lambda>member acc. acc + csize (snd member)) ms 0
      in if falsy_name name \<or> falsy_size (Some sz) then Inl InvalidNameOrSize
         else Inr (Struct (the name) sz ms))"

subsection \<open>The built-in types\<close>

definition int32_serialize :: "jsval \<Rightarrow> error + buffer" where
  "int32_serialize v =
     (case operand v of
        Inl err \<Rightarrow> Inl err
      | Inr n \<Rightarrow> Inr [ToUint8 (js_rem (js_shr n (BYTE_LEN * 3)) BYTE_SIZE),
                     ToUint8 (js_rem (js_shr n (BYTE_LEN * 2)) BYTE_SIZE),
                     ToUint8 (js_rem (js_shr n (BYTE_LEN * 1)) BYTE_SIZE),
                     ToUint8 (js_rem n BYTE_SIZE)])"

definition int32_deserialize :: "buffer \<Rightarrow> error + jsval" where
  "int32_deserialize bytes =
     (if length bytes < 4 then Inr NaN
      else Inr (Number (uint (bytes ! 3) + js_shl (uint (bytes ! 2)) (BYTE_LEN * 1)
                         + js_shl (uint (bytes ! 1)) (BYTE_LEN * 2)
                         + js_shl (uint (bytes ! 0)) (BYTE_LEN * 3))))"

text \<open>Division of BigInts truncates towards zero.\<close>

definition js_quot :: "int \<Rightarrow> int \<Rightarrow> int" where
  "js_quot a b = sgn a * sgn b * (\<bar>a\<bar> div \<bar>b\<bar>)"

function bigint_serialize_loop :: "int \<Rightarrow> buffer \<Rightarrow> int \<Rightarrow> buffer" where
  "bigint_serialize_loop i serialized bigint =
     (if i \<ge> 0
      then bigint_serialize_loop (i - 1)
             (serialized[nat i := ToUint8 (js_rem bigint BYTE_SIZE)]) (js_quot bigint BYTE_SIZE)
      else serialized)"
  by pat_completeness auto
termination
  by (relation "measure (\<lambda>(i, serialized, bigint). nat (i + 1))") auto

declare bigint_serialize_loop.simps [simp del]

definition bigint_serialize :: "jsval \<Rightarrow> error + buffer" where
  "bigint_serialize v =
     (case v of BigInt bigint \<Rightarrow> Inr (bigint_serialize_loop 7 (replicate 8 0) bigint)
              | _ \<Rightarrow> Inl TypeError)"

function bigint_deserialize_loop :: "buffer \<Rightarrow> int \<Rightarrow> int \<Rightarrow> int \<Rightarrow> int" where
  "bigint_deserialize_loop bytes i j bigint =
     (if i \<ge> 0
      then bigint_deserialize_loop bytes (i - 1) (j + 1)
             (bigint + push_bit (nat (j * BYTE_LEN)) (uint (bytes ! nat i)))
      else bigint)"
  by pat_completeness auto
termination
  by (relation "measure (\<lambda>(bytes, i, j, bigint). nat (i + 1))") auto

declare bigint_deserialize_loop.simps [simp del]

definition bigint_deserialize :: "buffer \<Rightarrow> error + jsval" where
  "bigint_deserialize bytes = Inr (BigInt (bigint_deserialize_loop bytes (int (length bytes) - 1) 0 0))"

definition cvar_uint4 :: ctype where
  "cvar_uint4 = CType ''uint4'' 4 default_serialize default_deserialize"

definition cvar_uint8 :: ctype where
  "cvar_uint8 = CType ''uint8'' 8 default_serialize default_deserialize"

definition cvar_int32 :: ctype where
  "cvar_int32 = CType ''int32'' 32 int32_serialize int32_deserialize"

definition cvar_bigint :: ctype where
  "cvar_bigint = CType ''bigint'' 64 bigint_serialize bigint_deserialize"

definition cvar_boolean :: ctype where
  "cvar_boolean = CType ''boolean'' 1
     (\<lambda>bool. Inr [if truthy bool then 1 else 0])
     (\<lambda>bytes. Inr (Boolean (case bytes of [] \<Rightarrow> False | b # _ \<Rightarrow> b \<noteq> 0)))"

definition cvar_null :: ctype where
  "cvar_null = CType ''null'' 1 (\<lambda>_. Inr [0]) (\<lambda>_. Inr Null)"

subsection \<open>Structs\<close>

text \<open>
  \<open>serialize_of\<close> and \<open>deserialize_of\<close> are the \<open>serialize\<close> and \<open>deserialize\<close> properties of
  a type: the stored closures of a \<open>CType\<close>, and for a \<open>Struct\<close> the closures that its
  constructor installs, which walk the member list. \<open>toObject_members\<close> is the loop of
  \<open>toObject\<close>; a member that is itself a struct is deserialized through its own
  \<open>deserialize\<close>, from bit 0 of the extracted bytes.

  Where the guard of \<open>toObject\<close> holds, the source builds the message of its \<open>Error\<close>
  from a template literal that interpolates \<open>memberType.enum\<close>. That is a Symbol
  (\<open>this.enum = Symbol(name)\<close> in the constructor of \<open>CType\<close>), and converting a Symbol to
  a string raises a \<open>TypeError\<close>: the \<open>throw new Error\<close> is never reached, and the branch
  raises the \<open>TypeError\<close>.
\<close>

function serialize_of :: "property_read \<Rightarrow> ctype \<Rightarrow> jsval \<Rightarrow> error + buffer"
  and Struct_serialize_members ::
    "property_read \<Rightarrow> (string \<times> ctype) list \<Rightarrow> jsval \<Rightarrow> buffer \<Rightarrow> int \<Rightarrow> error + buffer"
where
  "serialize_of get_property (CType name sz ser des) v = ser v"
| "serialize_of get_property (Struct name sz ms) object =
     (case new_Uint8Array (ceil_div sz BYTE_LEN) of
        Inl err \<Rightarrow> Inl err
      | Inr serialized \<Rightarrow> Struct_serialize_members get_property ms object serialized 0)"
| "Struct_serialize_members get_property [] object serialized i = Inr serialized"
| "Struct_serialize_members get_property (member # ms) object serialized i =
     (case get_property object (fst member) of
        Inl err \<Rightarrow> Inl err
      | Inr v \<Rightarrow>
          (case serialize_of get_property (snd member) v of
             Inl err \<Rightarrow> Inl err
           | Inr bytes \<Rightarrow>
               Struct_serialize_members get_property ms object
                 (insertBuffer bytes serialized i (mod_js (BYTE_LEN - csize (snd member)) BYTE_LEN))
                 (i + csize (snd member))))"
  by pat_completeness auto
termination
  by (relation "measure (\<lambda>x. case x of
          Inl (g, t, v) \<Rightarrow> size t
        | Inr (g, ms, object, serialized, i) \<Rightarrow> size_list (size_prod (\<lambda>_. 0) size) ms)")
     auto

function deserialize_of :: "ctype \<Rightarrow> buffer \<Rightarrow> error + jsval"
  and toObject_members ::
    "(string \<times> ctype) list \<Rightarrow> buffer \<Rightarrow> int \<Rightarrow> (string \<times> jsval) list \<Rightarrow> error + jsval"
where
  "deserialize_of (CType name sz ser des) bytes = des bytes"
| "deserialize_of (Struct name sz ms) bytes = toObject_members ms bytes 0 []"
| "toObject_members [] buffer i obj = Inr (Object obj)"
| "toObject_members (member # ms) buffer i obj =
     (let memberName = fst member; memberType = snd member
      in if i + csize memberType \<ge> int (length buffer) * BYTE_LEN
         then Inl TypeError
         else (case bufferExtract buffer i (csize memberType) of
                 Inl err \<Rightarrow> Inl err
               | Inr bytes \<Rightarrow>
                   (case deserialize_of memberType bytes of
                      Inl err \<Rightarrow> Inl err
                    | Inr v \<Rightarrow>
                        toObject_members ms buffer (i + csize memberType)
                          (AList.update memberName v obj))))"
  by pat_completeness auto
termination
  by (relation "measure (\<lambda>x. case x of
          Inl (t, bytes) \<Rightarrow> size t
        | Inr (ms, buffer, i, obj) \<Rightarrow> size_list (size_prod (\<lambda>_. 0) size) ms)")
     auto

text \<open>
  \<open>toObject\<close>: the struct may be \<open>undefined\<close> (\<open>None\<close>); a type without a member list
  makes \<open>struct.members.length\<close> raise a \<open>TypeError\<close>.
\<close>

fun toObject :: "ctype option \<Rightarrow> buffer \<Rightarrow> int \<Rightarrow> error + jsval" where
  "toObject None buffer ptr = Inl StructNullOrUndefined"
| "toObject (Some (Struct name sz ms)) buffer ptr = toObject_members ms buffer ptr []"
| "toObject (Some (CType name sz ser des)) buffer ptr = Inl TypeError"

section \<open>Packed arrays\<close>

record PtrArray =
  arr_length :: int
  arr_type :: ctype
  bitSize :: int
  arr_buffer :: buffer

text \<open>
  The buffer argument of \<open>setBuffer\<close>: left out, a \<open>Uint8Array\<close>, or a value of another
  kind.
\<close>

datatype buffer_arg = NoBuffer | Uint8Array buffer | OtherValue

text \<open>\<open>b.slice(0, e)\<close>: a negative end counts from the end of the array.\<close>

definition slice0 :: "buffer \<Rightarrow> int \<Rightarrow> buffer" where
  "slice0 b e = (if e \<ge> 0 then take (nat e) b else take (nat (int (length b) + e)) b)"

text \<open>
  \<open>Math.ceil(this.length * this.type.size / BYTE_LEN)\<close>, the product rounded as a number
  is; then \<open>setBuffer(buffer, pad)\<close>, which allocates with the engine's limit \<open>maxLen\<close>, and
  the constructor, which calls \<open>setBuffer()\<close>.
\<close>

definition expectedLength :: "PtrArray \<Rightarrow> int" where
  "expectedLength a = ceil_div (num_mul (arr_length a) (csize (arr_type a))) BYTE_LEN"

definition setBuffer :: "int \<Rightarrow> PtrArray \<Rightarrow> buffer_arg \<Rightarrow> bool \<Rightarrow> error + PtrArray" where
  "setBuffer maxLen a buffer pad =
     (let expectedLength = expectedLength a
      in case buffer of
           NoBuffer \<Rightarrow>
             (case new_Uint8Array_max maxLen expectedLength of
                Inl err \<Rightarrow> Inl err
              | Inr b \<Rightarrow> Inr (a\<lparr>arr_buffer := b\<rparr>))
         | OtherValue \<Rightarrow> Inl NotUint8Array
         | Uint8Array b \<Rightarrow>
             if pad then
               (if int (length b) > expectedLength
                then Inr (a\<lparr>arr_buffer := slice0 b expectedLength\<rparr>)
                else if int (length b) < expectedLength
                then (case new_Uint8Array_max maxLen expectedLength of
                        Inl err \<Rightarrow> Inl err
                      | Inr z \<Rightarrow> Inr (a\<lparr>arr_buffer := b @ drop (length b) z\<rparr>))
                else Inr (a\<lparr>arr_buffer := b\<rparr>))
             else if int (length b) < expectedLength
             then Inl (UnexpectedLength expectedLength (int (length b)))
             else Inr (a\<lparr>arr_buffer := b\<rparr>))"

definition PtrArray_new :: "int \<Rightarrow> int \<Rightarrow> ctype \<Rightarrow> error + PtrArray" where
  "PtrArray_new maxLen len t =
     setBuffer maxLen \<lparr>arr_length = len, arr_type = t, bitSize = 0, arr_buffer = []\<rparr> NoBuffer True"

definition is_Struct :: "ctype \<Rightarrow> bool" where
  "is_Struct t = (case t of Struct name sz ms \<Rightarrow> True | CType name sz ser des \<Rightarrow> False)"

definition get :: "PtrArray \<Rightarrow> int \<Rightarrow> error + jsval" where
  "get a i =
     (if i < 0 \<or> \<not> (i < arr_length a) then Inr Undefined
      else if is_Struct (arr_type a)
      then toObject (Some (arr_type a)) (arr_buffer a) (i * csize (arr_type a))
      else (case bufferExtract (arr_buffer a) (i * csize (arr_type a)) (csize (arr_type a)) of
              Inl err \<Rightarrow> Inl err
            | Inr bytes \<Rightarrow> deserialize_of (arr_type a) bytes))"

definition set_item :: "property_read \<Rightarrow> PtrArray \<Rightarrow> int \<Rightarrow> jsval \<Rightarrow> error + PtrArray" where
  "set_item get_property a i item =
     (if i < 0 \<or> \<not> (i < arr_length a) then Inr a
      else (case serialize_of get_property (arr_type a) item of
              Inl err \<Rightarrow> Inl err
            | Inr bytes \<Rightarrow>
                Inr (a\<lparr>arr_buffer :=
                       insertBuffer bytes (arr_buffer a) (i * csize (arr_type a))
                         (if csize (arr_type a) < 8 then mod_js (- csize (arr_type a)) BYTE_LEN
                          else 0)\<rparr>)))"

section \<open>Bits of a buffer\<close>

text \<open>
  Bits of a buffer are numbered from the most significant bit of byte 0. A position
  outside the buffer holds no bit: \<open>bit_at\<close> is \<open>False\<close> there.
\<close>

definition bit_at :: "buffer \<Rightarrow> int \<Rightarrow> bool" where
  "bit_at b n = (0 \<le> n \<and> n < 8 * int (length b) \<and> bit (b ! nat (n div 8)) (nat (7 - n mod 8)))"

subsection \<open>The JavaScript operators on small non-negative numbers\<close>

lemma sint32_id: "- (2 ^ 31) \<le> k \<Longrightarrow> k < 2 ^ 31 \<Longrightarrow> sint (word_of_int k :: 32 word) = k"
  by (simp add: sint_sbintrunc' signed_take_bit_int_eq_self)

lemma js_and_small:
  assumes "0 \<le> x" "x < 2 ^ 31" "0 \<le> y"
  shows "js_and x y = x AND y"
proof -
  have "0 \<le> x AND y" "x AND y \<le> x"
    using assms by (simp_all add: AND_upper1)
  then have "- (2 ^ 31) \<le> x AND y" "x AND y < 2 ^ 31"
    using assms(2) by linarith+
  then have "sint (word_of_int (x AND y) :: 32 word) = x AND y"
    by (rule sint32_id)
  then show ?thesis
    by (simp add: js_and_def ToInt32_def of_int_and_eq)
qed

lemma js_shl_small:
  assumes "0 \<le> x" "0 \<le> s" "s < 32" "x * 2 ^ nat s < 2 ^ 31"
  shows "js_shl x s = push_bit (nat s) x"
proof -
  have "push_bit (nat s) (word_of_int x :: 32 word) = word_of_int (push_bit (nat s) x)"
    by (simp add: push_bit_of_int)
  moreover have "0 \<le> x * 2 ^ nat s"
    using assms(1) by simp
  then have "sint (word_of_int (push_bit (nat s) x) :: 32 word) = push_bit (nat s) x"
    using assms(4) unfolding push_bit_eq_mult by (intro sint32_id) linarith+
  ultimately show ?thesis
    using assms by (simp add: js_shl_def ToInt32_def)
qed

lemma js_shr_small:
  assumes "0 \<le> x" "x < 2 ^ 31" "0 \<le> s" "s < 32"
  shows "js_shr x s = drop_bit (nat s) x"
  using assms by (simp add: js_shr_def ToInt32_def sint_signed_drop_bit_eq sint32_id)

lemma bit_store_or:
  assumes "q < 8"
  shows "bit (ToUint8 (js_or a e)) q \<longleftrightarrow> bit a q \<or> bit e q"
  using assms
  by (simp add: ToUint8_def js_or_def ToInt32_def bit_simps)

subsection \<open>One chunk of a bit copy\<close>

lemma chunk_bits:
  fixes x :: int and di dj m :: nat
  assumes "m \<le> di" "m \<le> dj"
  shows "bit (if dj \<le> di then push_bit (di - dj) (x AND push_bit (dj - m) (mask m))
              else drop_bit (dj - di) (x AND push_bit (dj - m) (mask m))) q
         \<longleftrightarrow> di - m \<le> q \<and> q < di \<and> bit x (q + dj - di)"
proof (cases "dj \<le> di")
  case True
  then show ?thesis
    using assms by (auto simp: bit_simps)
next
  case False
  then show ?thesis
    using assms by (auto simp: bit_simps ac_simps)
qed

lemma u8_read_bounds: "0 \<le> u8_read b k" "u8_read b k < 256"
proof -
  have "uint w < 256" for w :: byte
    using uint_bounded [of w] by simp
  then show "0 \<le> u8_read b k" "u8_read b k < 256"
    by (simp_all add: u8_read_def)
qed

lemma pow2_le_256: "m \<le> 8 \<Longrightarrow> (2::int) ^ m \<le> 256"
  using power_increasing [of m 8 "2::int"] by simp

text \<open>The chunk that both loops move: \<open>m\<close> bits, from the \<open>dj\<close> low bits of the source
  byte \<open>x\<close> to the \<open>di\<close> low bits of the destination byte.\<close>

lemma js_chunk:
  fixes x di dj m msk :: int
  assumes m: "1 \<le> m" "m \<le> di" "m \<le> dj" "di \<le> 8" "dj \<le> 8"
    and x: "0 \<le> x" "x < 256"
    and msk: "msk = push_bit (nat (dj - m)) (mask (nat m))"
  shows "bit (if di \<ge> dj then js_shl (js_and x msk) (di - dj) else js_shr (js_and x msk) (dj - di)) q
         \<longleftrightarrow> nat (di - m) \<le> q \<and> q < nat di \<and> bit x (q + nat dj - nat di)"
proof -
  have msk0: "0 \<le> msk"
    by (simp add: msk)
  have e: "js_and x msk = x AND msk"
    using x msk0 by (intro js_and_small) simp_all
  have eb: "0 \<le> x AND msk" "x AND msk \<le> x"
    using x by (simp_all add: AND_upper1)
  have shl: "js_shl (x AND msk) (di - dj) = push_bit (nat (di - dj)) (x AND msk)" if "dj \<le> di"
  proof (rule js_shl_small)
    have "(2::int) ^ nat (di - dj) \<le> 256"
      using m that by (intro pow2_le_256) simp
    then have "(x AND msk) * 2 ^ nat (di - dj) \<le> 256 * 256"
      using eb x by (intro mult_mono) simp_all
    then show "(x AND msk) * 2 ^ nat (di - dj) < 2 ^ 31"
      by simp
  qed (use m that eb in simp_all)
  have shr: "js_shr (x AND msk) (dj - di) = drop_bit (nat (dj - di)) (x AND msk)" if "\<not> dj \<le> di"
    using m that eb x by (intro js_shr_small) simp_all
  have n: "nat (di - dj) = nat di - nat dj" "nat (dj - di) = nat dj - nat di"
    "nat (dj - m) = nat dj - nat m" "nat (di - m) = nat di - nat m"
    using m by simp_all
  have le: "nat m \<le> nat di" "nat m \<le> nat dj"
    using m by simp_all
  show ?thesis
  proof (cases "dj \<le> di")
    case True
    then have "nat dj \<le> nat di"
      by simp
    moreover have "js_shl (js_and x msk) (di - dj)
        = push_bit (nat di - nat dj) (x AND push_bit (nat dj - nat m) (mask (nat m)))"
      unfolding e shl [OF True] n(1) unfolding msk n(3) ..
    ultimately show ?thesis
      using chunk_bits [OF le, of x q] True by (simp only: n if_True)
  next
    case False
    then have "\<not> nat dj \<le> nat di"
      using m by simp
    moreover have "js_shr (js_and x msk) (dj - di)
        = drop_bit (nat dj - nat di) (x AND push_bit (nat dj - nat m) (mask (nat m)))"
      unfolding e shr [OF False] n(2) unfolding msk n(3) ..
    ultimately show ?thesis
      using chunk_bits [OF le, of x q] False by (simp only: n if_False)
  qed
qed

lemma extract_mask:
  assumes "1 \<le> m" "m \<le> dj" "dj \<le> 8"
  shows "js_shl (js_shl 1 m - 1) (dj - m) = push_bit (nat (dj - m)) (mask (nat m))"
proof -
  have p: "(2::int) ^ nat m \<le> 256" "(2::int) ^ nat (dj - m) \<le> 256"
    using assms by (intro pow2_le_256; simp)+
  have "js_shl 1 m = push_bit (nat m) 1"
    using assms p by (intro js_shl_small) simp_all
  then have a: "js_shl 1 m - 1 = mask (nat m)"
    by (simp add: mask_eq_exp_minus_1)
  have "(mask (nat m) :: int) * 2 ^ nat (dj - m) \<le> 256 * 256"
    using p by (intro mult_mono) (simp_all add: mask_eq_exp_minus_1)
  then have "js_shl (mask (nat m)) (dj - m) = push_bit (nat (dj - m)) (mask (nat m))"
    using assms by (intro js_shl_small) simp_all
  then show ?thesis
    by (simp add: a)
qed

lemma insert_mask:
  assumes "1 \<le> m" "m \<le> d0" "d0 \<le> 8"
  shows "(js_shl 1 d0 - 1) - (js_shl 1 (d0 - m) - 1) = push_bit (nat (d0 - m)) (mask (nat m))"
proof -
  have p: "(2::int) ^ nat d0 \<le> 256" "(2::int) ^ nat (d0 - m) \<le> 256"
    using assms by (intro pow2_le_256; simp)+
  have a: "js_shl 1 d0 = push_bit (nat d0) 1"
    using assms p by (intro js_shl_small) simp_all
  have b: "js_shl 1 (d0 - m) = push_bit (nat (d0 - m)) 1"
    using assms p by (intro js_shl_small) simp_all
  have "nat d0 = nat (d0 - m) + nat m"
    using assms by simp
  then have "(2::int) ^ nat d0 = 2 ^ nat (d0 - m) * 2 ^ nat m"
    by (simp only: power_add)
  then show ?thesis
    by (simp add: a b push_bit_eq_mult mask_eq_exp_minus_1 algebra_simps)
qed

lemma length_u8_or_assign [simp]: "length (u8_or_assign b k e) = length b"
  by (simp add: u8_or_assign_def)

lemma div8_range:
  fixes n :: int
  assumes "0 \<le> n" "n < 8 * l"
  shows "0 \<le> n div 8" "n div 8 < l"
  using assms by (simp_all add: div_less_iff_less_mult mult.commute)

lemma bit_at_or_assign:
  "bit_at (u8_or_assign b k e) n \<longleftrightarrow>
     bit_at b n \<or> (0 \<le> n \<and> n < 8 * int (length b) \<and> n div 8 = k \<and> bit e (nat (7 - n mod 8)))"
proof (cases "0 \<le> n \<and> n < 8 * int (length b)")
  case False
  then show ?thesis
    by (auto simp: bit_at_def)
next
  case True
  then have r: "0 \<le> n div 8" "n div 8 < int (length b)"
    using div8_range [of n "int (length b)"] by simp_all
  have q: "nat (7 - n mod 8) < 8"
    using pos_mod_sign [of 8 n] by simp
  show ?thesis
  proof (cases "n div 8 = k")
    case eq: True
    then have "u8_or_assign b k e ! nat (n div 8) = ToUint8 (js_or (uint (b ! nat k)) e)"
      using r by (simp add: u8_or_assign_def)
    then show ?thesis
      using True eq q by (simp add: bit_at_def bit_store_or bit_uint_iff)
  next
    case ne: False
    then have "nat (n div 8) \<noteq> nat k \<or> \<not> (0 \<le> k \<and> k < int (length b))"
      using r by auto
    then have "u8_or_assign b k e ! nat (n div 8) = b ! nat (n div 8)"
      by (auto simp: u8_or_assign_def)
    then show ?thesis
      using ne by (simp add: bit_at_def)
  qed
qed

lemma same_byte:
  fixes i n m :: int
  assumes "1 \<le> m" "m \<le> 8 - i mod 8"
  shows "(n div 8 = i div 8 \<and> i mod 8 \<le> n mod 8 \<and> n mod 8 < i mod 8 + m) \<longleftrightarrow> (i \<le> n \<and> n < i + m)"
proof -
  have i: "i = 8 * (i div 8) + i mod 8" and n: "n = 8 * (n div 8) + n mod 8"
    by simp_all
  have b: "0 \<le> i mod 8" "0 \<le> n mod 8" "n mod 8 < 8" "i mod 8 < 8"
    by simp_all
  show ?thesis
  proof
    assume "n div 8 = i div 8 \<and> i mod 8 \<le> n mod 8 \<and> n mod 8 < i mod 8 + m"
    then show "i \<le> n \<and> n < i + m"
      using i n by linarith
  next
    assume a: "i \<le> n \<and> n < i + m"
    have "n div 8 = i div 8"
    proof (rule ccontr)
      assume "n div 8 \<noteq> i div 8"
      then consider "n div 8 + 1 \<le> i div 8" | "i div 8 + 1 \<le> n div 8"
        by linarith
      then show False
        using a i n b assms by cases linarith+
    qed
    then show "n div 8 = i div 8 \<and> i mod 8 \<le> n mod 8 \<and> n mod 8 < i mod 8 + m"
      using a i n by linarith
  qed
qed

lemma bit_at_read: "bit_at b t \<longleftrightarrow> bit (u8_read b (t div 8)) (nat (7 - t mod 8))"
proof -
  have t: "t = 8 * (t div 8) + t mod 8" "0 \<le> t mod 8" "t mod 8 < 8"
    by simp_all
  have "0 \<le> t div 8 \<longleftrightarrow> 0 \<le> t"
    by (simp add: pos_imp_zdiv_nonneg_iff)
  moreover have "t div 8 < int (length b) \<longleftrightarrow> t < 8 * int (length b)"
    using t by linarith
  ultimately show ?thesis
    by (auto simp: bit_at_def u8_read_def bit_uint_iff)
qed

lemma shifted_position:
  fixes i j n m :: int
  assumes "m \<le> 8 - j mod 8" "i \<le> n" "n < i + m"
  shows "(n - i + j) div 8 = j div 8" "(n - i + j) mod 8 = j mod 8 + (n - i)"
proof -
  have j: "j = 8 * (j div 8) + j mod 8"
    by simp
  have b: "0 \<le> j mod 8"
    by simp
  have eq: "n - i + j = 8 * (j div 8) + (j mod 8 + (n - i))"
    using j by linarith
  have r: "0 \<le> j mod 8 + (n - i)" "j mod 8 + (n - i) < 8"
    using assms b by linarith+
  show "(n - i + j) div 8 = j div 8"
    using eq r by (rule int_div_pos_eq)
  show "(n - i + j) mod 8 = j mod 8 + (n - i)"
    using eq r by (rule int_mod_pos_eq)
qed

lemma chunk_copy:
  fixes i j m n :: int
  assumes m: "1 \<le> m" "m \<le> 8 - i mod 8" "m \<le> 8 - j mod 8"
    and e: "\<And>q. bit e q \<longleftrightarrow> nat (8 - i mod 8 - m) \<le> q \<and> q < nat (8 - i mod 8) \<and>
              bit (u8_read src (j div 8)) (q + nat (8 - j mod 8) - nat (8 - i mod 8))"
  shows "bit_at (u8_or_assign dst (i div 8) e) n \<longleftrightarrow>
           bit_at dst n \<or> (i \<le> n \<and> n < i + m \<and> 0 \<le> n \<and> n < 8 * int (length dst) \<and> bit_at src (n - i + j))"
proof -
  define r s u where "r = i mod 8" and "s = n mod 8" and "u = j mod 8"
  have b: "0 \<le> r" "0 \<le> s" "s < 8" "r < 8" "0 \<le> u" "u < 8"
    by (simp_all add: r_def s_def u_def)
  note m' = m [folded r_def u_def]
  have "nat (8 - r - m) \<le> nat (7 - s) \<longleftrightarrow> 8 - r - m \<le> 7 - s"
    using b by (intro nat_le_eq_zle) simp
  moreover have "nat (7 - s) < nat (8 - r) \<longleftrightarrow> 7 - s < 8 - r"
    using b by (intro nat_less_eq_zless) simp
  ultimately have w: "nat (8 - r - m) \<le> nat (7 - s) \<and> nat (7 - s) < nat (8 - r) \<longleftrightarrow> r \<le> s \<and> s < r + m"
    by auto
  have "(n div 8 = i div 8 \<and> bit e (nat (7 - n mod 8))) \<longleftrightarrow> (i \<le> n \<and> n < i + m \<and> bit_at src (n - i + j))"
  proof (cases "i \<le> n \<and> n < i + m")
    case False
    then have "\<not> (n div 8 = i div 8 \<and> r \<le> s \<and> s < r + m)"
      using same_byte [OF m(1,2), of n] by (simp add: r_def s_def)
    then show ?thesis
      using False e [of "nat (7 - n mod 8)"] w unfolding r_def s_def by blast
  next
    case True
    then have s: "n div 8 = i div 8" "r \<le> s" "s < r + m"
      using same_byte [OF m(1,2), of n] by (simp_all add: r_def s_def)
    have d: "n - i = s - r"
    proof -
      have "i = 8 * (i div 8) + r" "n = 8 * (n div 8) + s"
        by (simp_all add: r_def s_def)
      then show ?thesis
        using s(1) by linarith
    qed
    have t: "(n - i + j) div 8 = j div 8" "(n - i + j) mod 8 = u + (n - i)"
      using shifted_position [OF m(3), of i n] True by (simp_all add: u_def)
    have "nat (7 - s) + nat (8 - u) = nat ((7 - s) + (8 - u))"
      using b by (simp add: nat_add_distrib)
    moreover have "nat ((7 - s) + (8 - u)) - nat (8 - r) = nat ((7 - s) + (8 - u) - (8 - r))"
      using b by (simp add: nat_diff_distrib')
    moreover have "(7 - s) + (8 - u) - (8 - r) = 7 - (u + (s - r))"
      by simp
    ultimately have idx: "nat (7 - s) + nat (8 - u) - nat (8 - r) = nat (7 - (u + (s - r)))"
      by simp
    have "bit e (nat (7 - s)) \<longleftrightarrow>
        bit (u8_read src (j div 8)) (nat (7 - s) + nat (8 - u) - nat (8 - r))"
      using e [of "nat (7 - s)", folded r_def u_def] w s(2,3) by blast
    then have "bit e (nat (7 - s)) \<longleftrightarrow> bit (u8_read src (j div 8)) (nat (7 - (u + (s - r))))"
      by (simp only: idx)
    moreover have "bit_at src (n - i + j) \<longleftrightarrow>
        bit (u8_read src (j div 8)) (nat (7 - (u + (n - i))))"
      by (simp only: bit_at_read [of src] t)
    ultimately have "bit e (nat (7 - n mod 8)) \<longleftrightarrow> bit_at src (n - i + j)"
      by (simp only: d s_def)
    then show ?thesis
      using True s(1) by simp
  qed
  then show ?thesis
    unfolding bit_at_or_assign by blast
qed

lemma bufferExtract_body_bits:
  assumes lt: "j < endPtr"
    and body: "bufferExtract_body buffer endPtr (ext, i, j) = (ext', i', j')"
  shows "\<exists>m. 1 \<le> m \<and> m \<le> endPtr - j \<and> i' = i + m \<and> j' = j + m \<and>
           length ext' = length ext \<and>
           (\<forall>n. bit_at ext' n \<longleftrightarrow>
              bit_at ext n \<or> (i \<le> n \<and> n < i + m \<and> 0 \<le> n \<and> n < 8 * int (length ext) \<and>
                bit_at buffer (n - i + j)))"
proof -
  define di dj m where "di = bits_right i" and "dj = bits_right j"
    and "m = min (min di dj) (endPtr - j)"
  define x where "x = u8_read buffer (j div 8)"
  define e where "e = (if di \<ge> dj
      then js_shl (js_and x (js_shl (js_shl 1 m - 1) (dj - m))) (di - dj)
      else js_shr (js_and x (js_shl (js_shl 1 m - 1) (dj - m))) (dj - di))"
  have d: "1 \<le> di" "di \<le> 8" "1 \<le> dj" "dj \<le> 8"
    by (simp_all add: di_def dj_def bits_right_bounds)
  have m: "1 \<le> m" "m \<le> di" "m \<le> dj" "m \<le> endPtr - j"
    using d lt by (simp_all add: m_def)
  have res: "ext' = u8_or_assign ext (i div 8) e" "i' = i + m" "j' = j + m"
    using body
    unfolding bufferExtract_body_def Let_def BYTE_LEN_def e_def x_def m_def di_def dj_def
    by (simp_all only: prod.case prod.inject)
  have msk: "js_shl (js_shl 1 m - 1) (dj - m) = push_bit (nat (dj - m)) (mask (nat m))"
    using m(1,3) d(4) by (rule extract_mask)
  have x: "0 \<le> x" "x < 256"
    by (simp_all add: x_def u8_read_bounds)
  have e: "bit e q \<longleftrightarrow> nat (8 - i mod 8 - m) \<le> q \<and> q < nat (8 - i mod 8) \<and>
              bit (u8_read buffer (j div 8)) (q + nat (8 - j mod 8) - nat (8 - i mod 8))" for q
    using js_chunk [OF m(1,2,3) d(2,4) x msk, of q]
    by (simp only: e_def x_def di_def dj_def bits_right_eq)
  have m': "m \<le> 8 - i mod 8" "m \<le> 8 - j mod 8"
    using m(2,3) by (simp_all only: di_def dj_def bits_right_eq)
  have "bit_at ext' n \<longleftrightarrow>
      bit_at ext n \<or> (i \<le> n \<and> n < i + m \<and> 0 \<le> n \<and> n < 8 * int (length ext) \<and>
        bit_at buffer (n - i + j))" for n
    unfolding res(1) using m(1) m' e by (rule chunk_copy)
  then show ?thesis
    using m(1,4) res by (intro exI [of _ m]) simp
qed

lemma bufferExtract_loop_bits:
  "length (bufferExtract_loop buffer ext i j endPtr) = length ext \<and>
   (\<forall>n. bit_at (bufferExtract_loop buffer ext i j endPtr) n \<longleftrightarrow>
      bit_at ext n \<or> (i \<le> n \<and> n < i + (endPtr - j) \<and> 0 \<le> n \<and> n < 8 * int (length ext) \<and>
        bit_at buffer (n - i + j)))"
proof (induction buffer ext i j endPtr rule: bufferExtract_loop.induct)
  case (1 buffer ext i j endPtr)
  show ?case
  proof (cases "j < endPtr")
    case False
    then show ?thesis
      by (subst (1 2) bufferExtract_loop.simps) auto
  next
    case True
    obtain ext' i' j' where body: "bufferExtract_body buffer endPtr (ext, i, j) = (ext', i', j')"
      by (metis prod_cases3)
    from bufferExtract_body_bits [OF True body]
    obtain m where m: "1 \<le> m" "m \<le> endPtr - j" "i' = i + m" "j' = j + m"
      "length ext' = length ext"
      and bits: "\<And>n. bit_at ext' n \<longleftrightarrow>
              bit_at ext n \<or> (i \<le> n \<and> n < i + m \<and> 0 \<le> n \<and> n < 8 * int (length ext) \<and>
                bit_at buffer (n - i + j))"
      by blast
    have unf: "bufferExtract_loop buffer ext i j endPtr = bufferExtract_loop buffer ext' i' j' endPtr"
      using True body by (subst bufferExtract_loop.simps) simp
    note IH = "1.IH" [OF True body [symmetric] refl]
    have len: "length (bufferExtract_loop buffer ext' i' j' endPtr) = length ext"
      using IH m(5) by simp
    have "bit_at (bufferExtract_loop buffer ext' i' j' endPtr) n \<longleftrightarrow>
      bit_at ext n \<or> (i \<le> n \<and> n < i + (endPtr - j) \<and> 0 \<le> n \<and> n < 8 * int (length ext) \<and>
        bit_at buffer (n - i + j))" for n
    proof -
      have ihb: "bit_at (bufferExtract_loop buffer ext' i' j' endPtr) n \<longleftrightarrow>
          bit_at ext' n \<or> (i' \<le> n \<and> n < i' + (endPtr - j') \<and> 0 \<le> n \<and>
            n < 8 * int (length ext') \<and> bit_at buffer (n - i' + j'))"
        using IH by blast
      have eqs: "n - i' + j' = n - i + j" "i' + (endPtr - j') = i + (endPtr - j)"
        using m(3,4) by simp_all
      show ?thesis
        unfolding ihb eqs m(5) bits [of n] using m(1,2,3) by auto
    qed
    then show ?thesis
      unfolding unf using len by blast
  qed
qed

lemma insertBuffer_body_bits:
  assumes nonneg: "0 \<le> i" "0 \<le> j"
    and lt: "j < int (length b0) * 8"
    and body: "insertBuffer_body b0 (b1, i, j) = (b1', i', j')"
  shows "\<exists>m. 1 \<le> m \<and> j + m \<le> int (length b0) * 8 \<and> i' = i + m \<and> j' = j + m \<and>
           length b1' = length b1 \<and>
           (\<forall>n. bit_at b1' n \<longleftrightarrow>
              bit_at b1 n \<or> (i \<le> n \<and> n < i + m \<and> 0 \<le> n \<and> n < 8 * int (length b1) \<and>
                bit_at b0 (n - i + j)))"
proof -
  define d0 d1 m where "d0 = 8 - js_rem j 8" and "d1 = 8 - js_rem i 8" and "m = min d0 d1"
  define x where "x = u8_read b0 (j div 8)"
  define e where "e = (if d1 - d0 \<ge> 0
      then js_shl (js_and x ((js_shl 1 d0 - 1) - (js_shl 1 (d0 - m) - 1))) (d1 - d0)
      else js_shr (js_and x ((js_shl 1 d0 - 1) - (js_shl 1 (d0 - m) - 1))) (d0 - d1))"
  have dd: "d0 = 8 - j mod 8" "d1 = 8 - i mod 8"
    using nonneg by (simp_all add: d0_def d1_def js_rem_8)
  have mb: "0 \<le> i mod 8" "i mod 8 < 8" "0 \<le> j mod 8" "j mod 8 < 8"
    by simp_all
  have d: "1 \<le> d0" "d0 \<le> 8" "1 \<le> d1" "d1 \<le> 8"
    unfolding dd using mb by linarith+
  have m: "1 \<le> m" "m \<le> d1" "m \<le> d0"
    using d by (simp_all add: m_def)
  have res: "b1' = u8_or_assign b1 (i div 8) e" "i' = i + m" "j' = j + m"
    using body
    unfolding insertBuffer_body_def Let_def BYTE_LEN_def e_def x_def m_def d0_def d1_def
    by (simp_all only: prod.case prod.inject)
  have msk: "(js_shl 1 d0 - 1) - (js_shl 1 (d0 - m) - 1) = push_bit (nat (d0 - m)) (mask (nat m))"
    using m(1,3) d(2) by (rule insert_mask)
  have x: "0 \<le> x" "x < 256"
    by (simp_all add: x_def u8_read_bounds)
  have c: "(d1 - d0 \<ge> 0) = (d1 \<ge> d0)"
    by auto
  have e: "bit e q \<longleftrightarrow> nat (8 - i mod 8 - m) \<le> q \<and> q < nat (8 - i mod 8) \<and>
              bit (u8_read b0 (j div 8)) (q + nat (8 - j mod 8) - nat (8 - i mod 8))" for q
    using js_chunk [OF m(1,2,3) d(4,2) x msk, of q]
    unfolding e_def c by (simp only: x_def dd)
  have m': "m \<le> 8 - i mod 8" "m \<le> 8 - j mod 8"
    using m(2,3) by (simp_all only: dd)
  have "bit_at b1' n \<longleftrightarrow>
      bit_at b1 n \<or> (i \<le> n \<and> n < i + m \<and> 0 \<le> n \<and> n < 8 * int (length b1) \<and>
        bit_at b0 (n - i + j))" for n
    unfolding res(1) using m(1) m' e by (rule chunk_copy)
  moreover have "j + m \<le> int (length b0) * 8"
  proof -
    have "j = 8 * (j div 8) + j mod 8"
      by simp
    moreover have "j div 8 < int (length b0)"
      using lt mb(3) calculation by linarith
    ultimately show ?thesis
      using m'(2) by linarith
  qed
  ultimately show ?thesis
    using m(1) res by (intro exI [of _ m]) simp
qed

lemma insertBuffer_bits:
  assumes "0 \<le> i" "0 \<le> j"
  shows "length (insertBuffer b0 b1 i j) = length b1 \<and>
   (\<forall>n. bit_at (insertBuffer b0 b1 i j) n \<longleftrightarrow>
      bit_at b1 n \<or> (i \<le> n \<and> n < i + (int (length b0) * 8 - j) \<and> 0 \<le> n \<and>
        n < 8 * int (length b1) \<and> bit_at b0 (n - i + j)))"
  using assms
proof (induction b0 b1 i j rule: insertBuffer.induct)
  case (1 b0 b1 i j)
  show ?case
  proof (cases "j < int (length b0) * 8")
    case False
    then show ?thesis
      by (subst (1 2) insertBuffer.simps) (auto simp: BYTE_LEN_def)
  next
    case True
    obtain b1' i' j' where body: "insertBuffer_body b0 (b1, i, j) = (b1', i', j')"
      by (metis prod_cases3)
    from insertBuffer_body_bits [OF "1.prems" True body]
    obtain m where m: "1 \<le> m" "j + m \<le> int (length b0) * 8" "i' = i + m" "j' = j + m"
      "length b1' = length b1"
      and bits: "\<And>n. bit_at b1' n \<longleftrightarrow>
              bit_at b1 n \<or> (i \<le> n \<and> n < i + m \<and> 0 \<le> n \<and> n < 8 * int (length b1) \<and>
                bit_at b0 (n - i + j))"
      by blast
    have unf: "insertBuffer b0 b1 i j = insertBuffer b0 b1' i' j'"
      using True body by (subst insertBuffer.simps) (simp add: BYTE_LEN_def)
    have nn: "0 \<le> i'" "0 \<le> j'"
      using m(1,3,4) "1.prems" by simp_all
    have T: "j < int (length b0) * BYTE_LEN"
      using True by (simp add: BYTE_LEN_def)
    note IH = "1.IH" [OF T body [symmetric] refl nn]
    have len: "length (insertBuffer b0 b1' i' j') = length b1"
      using IH m(5) by simp
    have "bit_at (insertBuffer b0 b1' i' j') n \<longleftrightarrow>
      bit_at b1 n \<or> (i \<le> n \<and> n < i + (int (length b0) * 8 - j) \<and> 0 \<le> n \<and>
        n < 8 * int (length b1) \<and> bit_at b0 (n - i + j))" for n
    proof -
      have ihb: "bit_at (insertBuffer b0 b1' i' j') n \<longleftrightarrow>
          bit_at b1' n \<or> (i' \<le> n \<and> n < i' + (int (length b0) * 8 - j') \<and> 0 \<le> n \<and>
            n < 8 * int (length b1') \<and> bit_at b0 (n - i' + j'))"
        using IH by blast
      have eqs: "n - i' + j' = n - i + j"
        "i' + (int (length b0) * 8 - j') = i + (int (length b0) * 8 - j)"
        using m(3,4) by simp_all
      show ?thesis
        unfolding ihb eqs m(5) bits [of n] using m(1,2,3) by auto
    qed
    then show ?thesis
      unfolding unf using len by blast
  qed
qed

lemma ceil_div_ceiling: "ceil_div a b = \<lceil>real_of_int a / real_of_int b\<rceil>"
proof -
  have "- (real_of_int a / real_of_int b) = real_of_int (- a) / real_of_int b"
    by simp
  then have "\<lfloor>- (real_of_int a / real_of_int b)\<rfloor> = (- a) div b"
    by (simp only: floor_divide_of_int_eq)
  then show ?thesis
    by (simp only: ceil_div_def ceiling_def)
qed

lemma bit_at_zero [simp]: "\<not> bit_at (replicate k 0) n"
proof
  assume a: "bit_at (replicate k 0) n"
  then have "0 \<le> n div 8" "n div 8 < int k"
    using div8_range [of n "int k"] by (simp_all add: bit_at_def)
  then have "replicate k (0::byte) ! nat (n div 8) = 0"
    by simp
  with a show False
    by (simp add: bit_at_def)
qed

lemma ceil_div_8: "8 * ceil_div w 8 = (- w) mod 8 + w"
proof -
  have "- w = 8 * ((- w) div 8) + (- w) mod 8"
    by simp
  then show ?thesis
    unfolding ceil_div_def by linarith
qed

lemma bufferExtract_bits:
  assumes "0 \<le> w"
  shows "\<exists>r. bufferExtract B p w = Inr r \<and> int (length r) = ceil_div w 8 \<and>
           (\<forall>n. bit_at r n \<longleftrightarrow>
              (- w) mod 8 \<le> n \<and> n < (- w) mod 8 + w \<and> bit_at B (n - (- w) mod 8 + p))"
proof -
  have c: "0 \<le> ceil_div w 8"
    using assms ceil_div_8 [of w] pos_mod_sign [of 8 "- w"] by linarith
  define ext :: buffer where "ext = replicate (nat (ceil_div w 8)) 0"
  define r where "r = bufferExtract_loop B ext ((- w) mod 8) p (p + w)"
  have i: "mod_js (8 - w) 8 = (- w) mod 8"
  proof -
    have "(8 - w) mod 8 = (- w + 8) mod 8"
      by simp
    also have "\<dots> = (- w) mod 8"
      by (simp only: mod_add_self2)
    finally show ?thesis
      by (simp only: mod_js_8)
  qed
  have "bufferExtract B p w = Inr r"
    using c by (simp add: bufferExtract_def new_Uint8Array_def BYTE_LEN_def Let_def i r_def ext_def)
  moreover have len: "int (length r) = ceil_div w 8"
    using c bufferExtract_loop_bits [of B ext "(- w) mod 8" p "p + w"] by (simp add: r_def ext_def)
  moreover have "bit_at r n \<longleftrightarrow>
      (- w) mod 8 \<le> n \<and> n < (- w) mod 8 + w \<and> bit_at B (n - (- w) mod 8 + p)" for n
  proof -
    have l: "8 * int (length ext) = (- w) mod 8 + w"
      using c ceil_div_8 [of w] by (simp add: ext_def)
    have z: "0 \<le> (- w) mod 8"
      by simp
    have "bit_at r n \<longleftrightarrow> bit_at ext n \<or>
        ((- w) mod 8 \<le> n \<and> n < (- w) mod 8 + (p + w - p) \<and> 0 \<le> n \<and>
          n < 8 * int (length ext) \<and> bit_at B (n - (- w) mod 8 + p))"
      using bufferExtract_loop_bits [of B ext "(- w) mod 8" p "p + w"]
      unfolding r_def by blast
    moreover have "\<not> bit_at ext n"
      by (simp add: ext_def)
    moreover have "p + w - p = w"
      by simp
    ultimately show ?thesis
      unfolding l using z by auto
  qed
  ultimately show ?thesis
    by blast
qed


section \<open>Properties of the bit buffer engine\<close>

text \<open>
  C3. For a buffer \<open>B\<close>, a bit offset \<open>p \<ge> 0\<close> and a bit count \<open>w \<ge> 1\<close> with
  \<open>p + w \<le> 8 * length B\<close>, \<open>bufferExtract B p w\<close> returns \<open>ceil (w / 8)\<close> bytes that hold
  the \<open>w\<close> bits of \<open>B\<close> from bit \<open>p\<close> on, right-justified: bit \<open>k\<close> of the run is at
  position \<open>(- w) mod 8 + k\<close> of the result, and the \<open>(- w) mod 8\<close> leading bits of the
  result are zero.
\<close>

theorem bufferExtract_right_justified:
  assumes "0 \<le> p" "1 \<le> w" "p + w \<le> 8 * int (length B)"
  shows "\<exists>r. bufferExtract B p w = Inr r \<and>
           int (length r) = \<lceil>real_of_int w / 8\<rceil> \<and>
           (\<forall>k. 0 \<le> k \<and> k < w \<longrightarrow> bit_at r ((- w) mod 8 + k) = bit_at B (p + k)) \<and>
           (\<forall>n. n < (- w) mod 8 \<longrightarrow> \<not> bit_at r n)"
proof -
  from assms(2) have "0 \<le> w"
    by simp
  from bufferExtract_bits [OF this, of B p]
  obtain r where r: "bufferExtract B p w = Inr r" "int (length r) = ceil_div w 8"
    and bits: "\<And>n. bit_at r n \<longleftrightarrow>
              (- w) mod 8 \<le> n \<and> n < (- w) mod 8 + w \<and> bit_at B (n - (- w) mod 8 + p)"
    by blast
  have "int (length r) = \<lceil>real_of_int w / 8\<rceil>"
    using r(2) ceil_div_ceiling [of w 8] by simp
  moreover have "bit_at r ((- w) mod 8 + k) = bit_at B (p + k)" if "0 \<le> k \<and> k < w" for k
    using that by (simp add: bits add.commute)
  moreover have "\<not> bit_at r n" if "n < (- w) mod 8" for n
    using that by (simp add: bits)
  ultimately show ?thesis
    using r(1) by blast
qed

theorem bufferExtract_right_justified_witness:
  "(0::int) \<le> 4 \<and> (1::int) \<le> 5 \<and> (4::int) + 5 \<le> 8 * int (length [0xAB, 0xCD :: byte]) \<and>
   (\<exists>r. bufferExtract [0xAB, 0xCD] 4 5 = Inr r \<and>
      int (length r) = \<lceil>real_of_int 5 / 8\<rceil> \<and>
      (\<forall>k. 0 \<le> k \<and> k < 5 \<longrightarrow> bit_at r ((- 5) mod 8 + k) = bit_at [0xAB, 0xCD] (4 + k)) \<and>
      (\<forall>n. n < (- 5) mod 8 \<longrightarrow> \<not> bit_at r n))"
  using bufferExtract_right_justified [of 4 5 "[0xAB, 0xCD]"] by simp

text \<open>
  C2. The round trip through \<open>bufferExtract\<close> and \<open>insertBuffer\<close> with the default
  source offset 0 does not reproduce the bit range when the width is not a multiple of 8:
  \<open>bufferExtract\<close> returns the run right-justified, and \<open>insertBuffer\<close> from source
  offset 0 copies the leading padding bits of the first byte as well. For the buffer
  \<open>[0x80]\<close>, offset 0 and width 1 the extract is \<open>[0x01]\<close>, and inserting it at bit 0
  of a zeroed buffer sets bit 7 and leaves bit 0 clear.
\<close>

theorem extract_insert_default_offset_counterexample:
  "bufferExtract [0x80] 0 1 = Inr [0x01] \<and>
   insertBuffer [0x01] (replicate (length [0x80 :: byte]) 0) 0 0 = [0x01] \<and>
   bit_at [0x80] 0 \<and>
   \<not> bit_at (insertBuffer [0x01] (replicate (length [0x80 :: byte]) 0) 0 0) 0"
  by code_simp

text \<open>
  C2, as the code has it. For a buffer \<open>B\<close>, an offset \<open>p \<ge> 0\<close> and a width \<open>w \<ge> 1\<close>
  with \<open>p + w \<le> 8 * length B\<close>, inserting \<open>bufferExtract B p w\<close> into a zeroed buffer of
  the length of \<open>B\<close> at bit \<open>p\<close>, reading the extract from source offset \<open>mod (- w) 8\<close>
  (the offset that \<open>Struct.serialize\<close> and \<open>PtrArray.set\<close> pass for a sub-byte field, and
  0, the default, when \<open>w\<close> is a multiple of 8), gives a buffer whose bits in
  \<open>[p, p + w)\<close> are those of \<open>B\<close> and whose other bits are zero.
\<close>

theorem extract_insert_round_trip:
  assumes "0 \<le> p" "1 \<le> w" "p + w \<le> 8 * int (length B)"
  shows "\<exists>ex. bufferExtract B p w = Inr ex \<and>
           length (insertBuffer ex (replicate (length B) 0) p (mod_js (- w) BYTE_LEN)) = length B \<and>
           (\<forall>n. bit_at (insertBuffer ex (replicate (length B) 0) p (mod_js (- w) BYTE_LEN)) n \<longleftrightarrow>
              p \<le> n \<and> n < p + w \<and> bit_at B n)"
proof -
  define i0 where "i0 = (- w) mod 8"
  from assms(2) have "0 \<le> w"
    by simp
  from bufferExtract_bits [OF this, of B p]
  obtain ex where ex: "bufferExtract B p w = Inr ex" "int (length ex) = ceil_div w 8"
    and bits: "\<And>n. bit_at ex n \<longleftrightarrow> i0 \<le> n \<and> n < i0 + w \<and> bit_at B (n - i0 + p)"
    unfolding i0_def by blast
  have i0: "0 \<le> i0" "mod_js (- w) BYTE_LEN = i0"
    by (simp_all add: i0_def BYTE_LEN_def mod_js_8)
  have l: "int (length ex) * 8 - i0 = w"
    using ex(2) ceil_div_8 [of w] by (simp add: i0_def)
  define res where "res = insertBuffer ex (replicate (length B) 0) p i0"
  have len: "length res = length B"
    using insertBuffer_bits [OF assms(1) i0(1), of ex "replicate (length B) 0"]
    by (simp add: res_def)
  have "bit_at res n \<longleftrightarrow> p \<le> n \<and> n < p + w \<and> bit_at B n" for n
  proof -
    have "bit_at res n \<longleftrightarrow> bit_at (replicate (length B) 0) n \<or>
        (p \<le> n \<and> n < p + (int (length ex) * 8 - i0) \<and> 0 \<le> n \<and>
          n < 8 * int (length (replicate (length B) (0::byte))) \<and> bit_at ex (n - p + i0))"
      using insertBuffer_bits [OF assms(1) i0(1), of ex "replicate (length B) 0"]
      unfolding res_def by blast
    moreover have "n - p + i0 - i0 + p = n"
      by simp
    moreover have "bit_at B n \<Longrightarrow> 0 \<le> n \<and> n < 8 * int (length B)"
      by (simp add: bit_at_def)
    ultimately show ?thesis
      unfolding l bits by auto
  qed
  then show ?thesis
    using ex(1) len unfolding i0(2) res_def by blast
qed

theorem extract_insert_round_trip_witness:
  "(0::int) \<le> 3 \<and> (1::int) \<le> 7 \<and> (3::int) + 7 \<le> 8 * int (length [0xAB, 0xCD :: byte]) \<and>
   (\<exists>ex. bufferExtract [0xAB, 0xCD] 3 7 = Inr ex \<and>
      length (insertBuffer ex (replicate (length [0xAB, 0xCD :: byte]) 0) 3 (mod_js (- 7) BYTE_LEN))
        = length [0xAB, 0xCD :: byte] \<and>
      (\<forall>n. bit_at (insertBuffer ex (replicate (length [0xAB, 0xCD :: byte]) 0) 3 (mod_js (- 7) BYTE_LEN)) n \<longleftrightarrow>
         3 \<le> n \<and> n < 3 + 7 \<and> bit_at [0xAB, 0xCD] n))"
  using extract_insert_round_trip [of 3 7 "[0xAB, 0xCD]"] by simp

subsection \<open>Rounding\<close>

lemma bit_length_le: "a < 2 ^ k \<Longrightarrow> bit_length a \<le> k"
proof (induction k arbitrary: a)
  case 0
  then show ?case by (simp add: bit_length.simps)
next
  case (Suc k)
  show ?case
  proof (cases "a = 0")
    case True
    then show ?thesis by (simp add: bit_length.simps)
  next
    case False
    have "a div 2 < 2 ^ k"
      using Suc.prems by simp
    then have "bit_length (a div 2) \<le> k"
      by (rule Suc.IH)
    then show ?thesis
      using False by (subst bit_length.simps) simp
  qed
qed

lemma double_round_exact:
  assumes "\<bar>n\<bar> \<le> 2 ^ 53"
  shows "double_round n = n"
proof -
  define a where "a = nat \<bar>n\<bar>"
  define e where "e = bit_length a - 53"
  have a: "a \<le> 2 ^ 53"
    using assms by (simp add: a_def nat_le_iff)
  have q: "(a div 2 ^ e) * 2 ^ e = a \<and> a mod 2 ^ e = 0"
  proof (cases "a < 2 ^ 53")
    case True
    then have "e = 0"
      using bit_length_le [of a 53] by (simp add: e_def)
    then show ?thesis by simp
  next
    case False
    then have a53: "a = 2 ^ 53"
      using a by simp
    then have "a < 2 ^ 54"
      by simp
    then have "e \<le> 1"
      using bit_length_le [of a 54] by (simp add: e_def)
    then consider "e = 0" | "e = 1"
      by linarith
    then show ?thesis
      by cases (simp_all add: a53)
  qed
  have "int ((if 2 * (a mod 2 ^ e) > 2 ^ e \<or> (2 * (a mod 2 ^ e) = 2 ^ e \<and> odd (a div 2 ^ e))
               then a div 2 ^ e + 1 else a div 2 ^ e) * 2 ^ e) = int a"
    using q by simp
  then have "double_round n = sgn n * int a"
    unfolding double_round_def Let_def a_def [symmetric] e_def [symmetric] by (simp only:)
  also have "\<dots> = n"
    by (simp add: a_def sgn_if)
  finally show ?thesis .
qed





lemma num_exact:
  "\<bar>a + b\<bar> \<le> 2 ^ 53 \<Longrightarrow> num_add a b = a + b"
  "\<bar>a - b\<bar> \<le> 2 ^ 53 \<Longrightarrow> num_sub a b = a - b"
  "\<bar>a * b\<bar> \<le> 2 ^ 53 \<Longrightarrow> num_mul a b = a * b"
  by (simp_all add: num_add_def num_sub_def num_mul_def double_round_exact)

subsection \<open>The engine on doubles agrees with the engine on exact integers\<close>







subsection \<open>A cursor from \<open>2^56\<close> on does not advance\<close>











section \<open>Properties of type descriptors, structs and packed arrays\<close>

lemma toObject_members_guard:
  assumes "i + csize (snd member) \<ge> int (length buffer) * 8"
  shows "toObject_members (member # ms) buffer i obj = Inl TypeError"
  using assms by (simp add: BYTE_LEN_def Let_def)

text \<open>
  C1. Struct deserialization should fail, with the range error, only when a field would
  end past the last bit of the buffer. The guard of \<open>toObject\<close> compares with \<open>>=\<close>, so a
  field that ends exactly at the last bit is rejected as well, and what the branch raises
  is the \<open>TypeError\<close> of its own message, not the range error. For a struct of one
  \<open>uint8\<close> member and a buffer of one byte the member ends at bit 8 of 8, and both
  \<open>toObject\<close> and the struct's \<open>deserialize\<close> raise; with one more byte in the buffer the
  same read succeeds.
\<close>

theorem toObject_exact_fit_rejected:
  "Struct_new (Some ''s'') [(''a'', cvar_uint8)] = Inr (Struct ''s'' 8 [(''a'', cvar_uint8)]) \<and>
   \<not> (0 + csize cvar_uint8 > 8 * int (length [0x2A :: byte])) \<and>
   toObject (Some (Struct ''s'' 8 [(''a'', cvar_uint8)])) [0x2A] 0 = Inl TypeError \<and>
   deserialize_of (Struct ''s'' 8 [(''a'', cvar_uint8)]) [0x2A] = Inl TypeError \<and>
   toObject (Some (Struct ''s'' 8 [(''a'', cvar_uint8)])) [0x2A, 0x00] 0
     = Inr (Object [(''a'', Number 42)])"
proof -
  have "Struct_new (Some ''s'') [(''a'', cvar_uint8)] = Inr (Struct ''s'' 8 [(''a'', cvar_uint8)])"
    by (simp add: Struct_new_def falsy_name_def falsy_size_def cvar_uint8_def)
  moreover have "\<not> (0 + csize cvar_uint8 > 8 * int (length [0x2A :: byte]))"
    by (simp add: cvar_uint8_def)
  moreover have "toObject (Some (Struct ''s'' 8 [(''a'', cvar_uint8)])) [0x2A] 0 = Inl TypeError"
    by (simp add: cvar_uint8_def BYTE_LEN_def)
  moreover have "deserialize_of (Struct ''s'' 8 [(''a'', cvar_uint8)]) [0x2A] = Inl TypeError"
    by (simp add: cvar_uint8_def BYTE_LEN_def)
  moreover have "toObject (Some (Struct ''s'' 8 [(''a'', cvar_uint8)])) [0x2A, 0x00] 0
     = Inr (Object [(''a'', Number 42)])"
    by code_simp
  ultimately show ?thesis
    by (intro conjI)
qed

lemma bigint_deserialize_loop_nonneg:
  "0 \<le> bigint \<Longrightarrow> 0 \<le> bigint_deserialize_loop bytes i j bigint"
proof (induction bytes i j bigint rule: bigint_deserialize_loop.induct)
  case (1 bytes i j bigint)
  show ?case
  proof (cases "i \<ge> 0")
    case True
    have "0 \<le> bigint + push_bit (nat (j * BYTE_LEN)) (uint (bytes ! nat i))"
      using "1.prems" by simp
    then show ?thesis
      using True "1.IH" by (subst bigint_deserialize_loop.simps) simp
  next
    case False
    then show ?thesis
      using "1.prems" by (subst bigint_deserialize_loop.simps) simp
  qed
qed

lemma bigint_deserialize_never_negative:
  "\<exists>n. 0 \<le> n \<and> bigint_deserialize bytes = Inr (BigInt n)"
  by (simp add: bigint_deserialize_def bigint_deserialize_loop_nonneg)

text \<open>
  C4. The round trip of \<open>cvar.bigint\<close> fails on negative values: \<open>serialize\<close> takes
  remainders and quotients that truncate towards zero, so \<open>-1\<close> is written as the bytes
  of 255, and \<open>deserialize\<close> only adds non-negative terms
  (\<open>bigint_deserialize_never_negative\<close>) and returns 255.
\<close>

theorem bigint_negative_not_restored:
  "bigint_serialize (BigInt (- 1)) = Inr [0, 0, 0, 0, 0, 0, 0, 0xFF] \<and>
   bigint_deserialize [0, 0, 0, 0, 0, 0, 0, 0xFF] = Inr (BigInt 255)"
  by code_simp

text \<open>
  C6. The constructor of \<open>CType\<close> does not fail on every bit width \<open>\<le> 0\<close>: its guard is
  \<open>!name || !size\<close>, and a negative size is truthy.
\<close>

theorem CType_negative_size_counterexample:
  "\<not> isl (CType_new (Some ''neg'') (Some (- 8)) None None)"
  by (simp add: CType_new_def falsy_name_def falsy_size_def)

text \<open>
  C6, as the code has it. The constructor of \<open>CType\<close> fails exactly when the name is
  absent or empty or the size is absent or 0; with a present, non-empty name and any other
  size, positive or negative, it succeeds.
\<close>

theorem CType_new_fails_iff:
  "isl (CType_new name sz ser des) \<longleftrightarrow>
     name = None \<or> name = Some [] \<or> sz = None \<or> sz = Some 0"
  by (simp add: CType_new_def falsy_name_def falsy_size_def split: option.splits)

text \<open>
  C7. For an index outside \<open>[0, length)\<close>, negative or too large, \<open>get\<close> returns
  \<open>undefined\<close> and \<open>set\<close> returns with the array (buffer, length and element type)
  unchanged; neither raises.
\<close>

theorem PtrArray_out_of_range:
  assumes "i < 0 \<or> arr_length a \<le> i"
  shows "get a i = Inr Undefined \<and> set_item get_property a i v = Inr a"
  using assms by (auto simp: get_def set_item_def)

theorem PtrArray_out_of_range_witness:
  "((8::int) < 0 \<or> arr_length \<lparr>arr_length = 8, arr_type = cvar_boolean, bitSize = 0, arr_buffer = [0x80]\<rparr> \<le> 8) \<and>
   get \<lparr>arr_length = 8, arr_type = cvar_boolean, bitSize = 0, arr_buffer = [0x80]\<rparr> 8 = Inr Undefined \<and>
   set_item (\<lambda>object name. Inr Undefined)
     \<lparr>arr_length = 8, arr_type = cvar_boolean, bitSize = 0, arr_buffer = [0x80]\<rparr> 8 (Boolean True)
     = Inr \<lparr>arr_length = 8, arr_type = cvar_boolean, bitSize = 0, arr_buffer = [0x80]\<rparr>"
  using PtrArray_out_of_range [of 8 "\<lparr>arr_length = 8, arr_type = cvar_boolean, bitSize = 0, arr_buffer = [0x80]\<rparr>"
      "\<lambda>object name. Inr Undefined" "Boolean True"]
  by simp

lemma PtrArray_new_capacity:
  assumes "PtrArray_new maxLen n t = Inr a"
  shows "0 \<le> expectedLength a" "expectedLength a \<le> maxLen" "arr_length a = n" "arr_type a = t"
    "arr_buffer a = replicate (nat (expectedLength a)) 0"
  using assms
  by (auto simp: PtrArray_new_def setBuffer_def new_Uint8Array_max_def expectedLength_def Let_def
      split: if_splits)

lemma expectedLength_ceiling:
  assumes "- (2 ^ 53) \<le> arr_length a * csize (arr_type a)"
    "arr_length a * csize (arr_type a) \<le> 2 ^ 53"
  shows "expectedLength a = \<lceil>real_of_int (arr_length a * csize (arr_type a)) / 8\<rceil>"
proof -
  have "\<bar>arr_length a * csize (arr_type a)\<bar> \<le> 2 ^ 53"
    using assms by linarith
  then have "num_mul (arr_length a) (csize (arr_type a)) = arr_length a * csize (arr_type a)"
    by (rule num_exact)
  then show ?thesis
    using ceil_div_ceiling [of "arr_length a * csize (arr_type a)" 8]
    by (simp add: expectedLength_def BYTE_LEN_def)
qed

text \<open>
  C8. Let \<open>K = ceil (length * size / 8)\<close> be the expected byte capacity of an array, with
  \<open>length * size\<close> at most \<open>2^53\<close> and \<open>K\<close> within the allocator's limit, as it is for every
  array that the constructor has returned (\<open>PtrArray_new_capacity\<close>). With padding,
  \<open>setBuffer\<close> installs a buffer of exactly \<open>K\<close> bytes: the first \<open>K\<close> bytes of a longer
  input, a shorter input followed by zero bytes, an input of \<open>K\<close> bytes as it is. Without
  padding a shorter input is rejected. Without a buffer argument the new buffer is \<open>K\<close>
  zero bytes.
\<close>

theorem setBuffer_capacity:
  assumes "int K = \<lceil>real_of_int (arr_length a * csize (arr_type a)) / 8\<rceil>"
    and "arr_length a * csize (arr_type a) \<le> 2 ^ 53"
    and "int K \<le> maxLen"
  shows "(\<exists>buf. setBuffer maxLen a (Uint8Array b) True = Inr (a\<lparr>arr_buffer := buf\<rparr>) \<and>
            length buf = K \<and>
            (length b > K \<longrightarrow> buf = take K b) \<and>
            (length b < K \<longrightarrow> buf = b @ replicate (K - length b) 0) \<and>
            (length b = K \<longrightarrow> buf = b)) \<and>
         (length b < K \<longrightarrow>
            setBuffer maxLen a (Uint8Array b) False
              = Inl (UnexpectedLength (int K) (int (length b)))) \<and>
         setBuffer maxLen a NoBuffer pad = Inr (a\<lparr>arr_buffer := replicate K 0\<rparr>)"
proof -
  have "- 8 < real_of_int (arr_length a * csize (arr_type a))"
  proof (rule ccontr)
    assume "\<not> - 8 < real_of_int (arr_length a * csize (arr_type a))"
    then have "real_of_int (arr_length a * csize (arr_type a)) / 8 \<le> - 1"
      by simp
    then have "\<lceil>real_of_int (arr_length a * csize (arr_type a)) / 8\<rceil> \<le> - 1"
      by (simp add: ceiling_le_iff)
    then show False
      using assms(1) by linarith
  qed
  then have "- 8 < arr_length a * csize (arr_type a)"
    by linarith
  moreover have "(8::int) \<le> 2 ^ 53"
    by simp
  ultimately have "- (2 ^ 53) \<le> arr_length a * csize (arr_type a)"
    by linarith
  then have E: "expectedLength a = int K"
    using expectedLength_ceiling [of a] assms(1,2) by simp
  consider (long) "K < length b" | (short) "length b < K" | (eq) "length b = K"
    by linarith
  then have "\<exists>buf. setBuffer maxLen a (Uint8Array b) True = Inr (a\<lparr>arr_buffer := buf\<rparr>) \<and>
            length buf = K \<and>
            (length b > K \<longrightarrow> buf = take K b) \<and>
            (length b < K \<longrightarrow> buf = b @ replicate (K - length b) 0) \<and>
            (length b = K \<longrightarrow> buf = b)"
  proof cases
    case long
    then show ?thesis
      by (intro exI [of _ "take K b"]) (simp add: setBuffer_def E slice0_def)
  next
    case short
    then show ?thesis
      using assms(3)
      by (intro exI [of _ "b @ replicate (K - length b) 0"])
        (simp add: setBuffer_def E new_Uint8Array_max_def)
  next
    case eq
    then show ?thesis
      by (intro exI [of _ b]) (simp add: setBuffer_def E)
  qed
  moreover have "length b < K \<longrightarrow>
            setBuffer maxLen a (Uint8Array b) False = Inl (UnexpectedLength (int K) (int (length b)))"
    by (simp add: setBuffer_def E)
  moreover have "setBuffer maxLen a NoBuffer pad = Inr (a\<lparr>arr_buffer := replicate K 0\<rparr>)"
    using assms(3) by (simp add: setBuffer_def E new_Uint8Array_max_def)
  ultimately show ?thesis
    by blast
qed

theorem setBuffer_capacity_witness:
  "int 2 = \<lceil>real_of_int (arr_length \<lparr>arr_length = 3, arr_type = cvar_uint4, bitSize = 0, arr_buffer = [0, 0]\<rparr> * csize (arr_type \<lparr>arr_length = 3, arr_type = cvar_uint4, bitSize = 0, arr_buffer = [0, 0]\<rparr>)) / 8\<rceil> \<and>
   arr_length \<lparr>arr_length = 3, arr_type = cvar_uint4, bitSize = 0, arr_buffer = [0, 0]\<rparr> * csize (arr_type \<lparr>arr_length = 3, arr_type = cvar_uint4, bitSize = 0, arr_buffer = [0, 0]\<rparr>) \<le> 2 ^ 53 \<and>
   int 2 \<le> 1024 \<and>
   setBuffer 1024 \<lparr>arr_length = 3, arr_type = cvar_uint4, bitSize = 0, arr_buffer = [0, 0]\<rparr> (Uint8Array [1, 2, 3]) True
     = Inr \<lparr>arr_length = 3, arr_type = cvar_uint4, bitSize = 0, arr_buffer = [1, 2]\<rparr> \<and>
   setBuffer 1024 \<lparr>arr_length = 3, arr_type = cvar_uint4, bitSize = 0, arr_buffer = [0, 0]\<rparr> (Uint8Array [1]) True
     = Inr \<lparr>arr_length = 3, arr_type = cvar_uint4, bitSize = 0, arr_buffer = [1, 0]\<rparr> \<and>
   setBuffer 1024 \<lparr>arr_length = 3, arr_type = cvar_uint4, bitSize = 0, arr_buffer = [0, 0]\<rparr> (Uint8Array [1]) False = Inl (UnexpectedLength 2 1) \<and>
   setBuffer 1024 \<lparr>arr_length = 3, arr_type = cvar_uint4, bitSize = 0, arr_buffer = [0, 0]\<rparr> NoBuffer True
     = Inr \<lparr>arr_length = 3, arr_type = cvar_uint4, bitSize = 0, arr_buffer = [0, 0]\<rparr>"
proof -
  have c: "\<lceil>real_of_int 12 / 8\<rceil> = 2"
    by (simp add: ceiling_eq_iff)
  have h: "int 2 = \<lceil>real_of_int (arr_length \<lparr>arr_length = 3, arr_type = cvar_uint4, bitSize = 0, arr_buffer = [0, 0]\<rparr> * csize (arr_type \<lparr>arr_length = 3, arr_type = cvar_uint4, bitSize = 0, arr_buffer = [0, 0]\<rparr>)) / 8\<rceil>"
    "arr_length \<lparr>arr_length = 3, arr_type = cvar_uint4, bitSize = 0, arr_buffer = [0, 0]\<rparr> * csize (arr_type \<lparr>arr_length = 3, arr_type = cvar_uint4, bitSize = 0, arr_buffer = [0, 0]\<rparr>) \<le> 2 ^ 53" "int 2 \<le> 1024"
    using c by (simp_all add: cvar_uint4_def)
  have r: "replicate 2 (0::byte) = [0, 0]"
    by (simp add: numeral_2_eq_2)
  show ?thesis
    using h setBuffer_capacity [OF h, of "[1, 2, 3]" True] setBuffer_capacity [OF h, of "[1]" True]
    by (auto simp: r)
qed

subsection \<open>The 32-bit integer type\<close>

lemma js_shr_int32:
  assumes "- (2 ^ 31) \<le> v" "v < 2 ^ 31" "0 \<le> s" "s < 32"
  shows "js_shr v s = v div 2 ^ nat s"
  using assms by (simp add: js_shr_def ToInt32_def sint_signed_drop_bit_eq sint32_id drop_bit_eq_div)

lemma js_rem_256: "js_rem k 256 = (if 0 \<le> k then k mod 256 else - ((- k) mod 256))"
  by (simp add: js_rem_def sgn_if)

lemma ToUint8_js_rem: "ToUint8 (js_rem x 256) = word_of_int x"
proof -
  have "js_rem x 256 mod 256 = x mod 256"
    by (simp add: js_rem_256 mod_minus_eq)
  then have "take_bit 8 (js_rem x 256) = take_bit 8 x"
    by (simp add: take_bit_eq_mod)
  then show ?thesis
    by (simp add: ToUint8_def word_of_int_eq_iff)
qed

lemma uint_byte_of_int: "uint (word_of_int x :: byte) = x mod 256"
  by (simp add: uint_word_of_int)

lemma low24_bytes:
  fixes v :: int
  shows "v mod 256 + (v div 2 ^ 8) mod 256 * 2 ^ 8 + (v div 2 ^ 16) mod 256 * 2 ^ 16 = v mod 2 ^ 24"
proof -
  have a: "v mod (2 ^ 8 * 2 ^ 16) = 2 ^ 8 * (v div 2 ^ 8 mod 2 ^ 16) + v mod 2 ^ 8"
    by (rule zmod_zmult2_eq) simp
  have b: "(v div 2 ^ 8) mod (2 ^ 8 * 2 ^ 8) = 2 ^ 8 * (v div 2 ^ 8 div 2 ^ 8 mod 2 ^ 8) + v div 2 ^ 8 mod 2 ^ 8"
    by (rule zmod_zmult2_eq) simp
  have c: "v div 2 ^ 8 div 2 ^ 8 = v div (2 ^ 8 * 2 ^ 8)"
    by (rule zdiv_zmult2_eq [symmetric]) simp
  show ?thesis
    using a b c by simp
qed

lemma js_shl_24:
  assumes "- 128 \<le> h" "h < 128"
  shows "js_shl (h mod 256) 24 = h * 2 ^ 24"
proof -
  have "take_bit 32 (push_bit 24 (take_bit 8 h)) = take_bit 32 (push_bit 24 h)"
    by (simp add: take_bit_push_bit)
  then have "signed_take_bit 31 (push_bit 24 (take_bit 8 h)) = signed_take_bit 31 (push_bit 24 h)"
    by (simp add: signed_take_bit_eq_iff_take_bit_eq)
  also have "\<dots> = push_bit 24 h"
    using assms by (intro signed_take_bit_int_eq_self) (simp_all add: push_bit_eq_mult)
  finally have "signed_take_bit 31 (push_bit 24 (h mod 256)) = h * 2 ^ 24"
    by (simp add: take_bit_eq_mod push_bit_eq_mult)
  moreover have "js_shl (h mod 256) 24 = signed_take_bit 31 (push_bit 24 (h mod 256))"
    by (simp add: js_shl_def ToInt32_def push_bit_of_int sint_sbintrunc')
  ultimately show ?thesis
    by simp
qed

lemma js_shl_byte:
  assumes "0 \<le> x" "x < 256" "s = 8 \<or> s = 16"
  shows "js_shl x s = x * 2 ^ nat s"
proof -
  have "x * 2 ^ nat s \<le> 256 * 2 ^ 16"
    using assms by (intro mult_mono) auto
  then have "js_shl x s = push_bit (nat s) x"
    using assms by (intro js_shl_small) auto
  then show ?thesis
    by (simp add: push_bit_eq_mult)
qed

text \<open>
  C5. For every integer \<open>v\<close> with \<open>- 2^31 \<le> v < 2^31\<close>, negative values included, the
  serializer of \<open>cvar.int32\<close> writes the four bytes of the two's complement of \<open>v\<close>, most
  significant byte first, and the deserializer gives \<open>v\<close> back from them.
\<close>

theorem int32_round_trip:
  assumes "- (2 ^ 31) \<le> v" "v < 2 ^ 31"
  shows "int32_serialize (Number v)
           = Inr [word_of_int (v div 2 ^ 24), word_of_int (v div 2 ^ 16),
                  word_of_int (v div 2 ^ 8), word_of_int v] \<and>
         int32_deserialize [word_of_int (v div 2 ^ 24), word_of_int (v div 2 ^ 16),
                            word_of_int (v div 2 ^ 8), word_of_int v] = Inr (Number v)"
proof -
  have ser: "int32_serialize (Number v)
           = Inr [word_of_int (v div 2 ^ 24), word_of_int (v div 2 ^ 16),
                  word_of_int (v div 2 ^ 8), word_of_int v]"
    using assms
    by (simp add: int32_serialize_def operand_def BYTE_LEN_def BYTE_SIZE_def js_shr_int32
        ToUint8_js_rem)
  define h where "h = v div 2 ^ 24"
  have v: "v = h * 2 ^ 24 + v mod 2 ^ 24"
    unfolding h_def by simp
  have m: "0 \<le> v mod 2 ^ 24" "v mod 2 ^ 24 < 2 ^ 24"
    by simp_all
  have h: "- 128 \<le> h" "h < 128"
  proof -
    define r where "r = v mod 2 ^ 24"
    have "v = h * 16777216 + r" "0 \<le> r" "r < 16777216"
      using v m by (simp_all add: r_def)
    moreover have "- 2147483648 \<le> v" "v < 2147483648"
      using assms by simp_all
    ultimately show "- 128 \<le> h" "h < 128"
      by linarith+
  qed
  have b: "0 \<le> x mod 256" "x mod 256 < 256" for x :: int
    by simp_all
  have "v mod 256 + js_shl ((v div 2 ^ 8) mod 256) 8 + js_shl ((v div 2 ^ 16) mod 256) 16
          + js_shl (h mod 256) 24 = v"
    using v low24_bytes [of v] by (simp add: js_shl_byte b js_shl_24 [OF h])
  then have "int32_deserialize [word_of_int h, word_of_int (v div 2 ^ 16),
                            word_of_int (v div 2 ^ 8), word_of_int v] = Inr (Number v)"
    by (simp add: int32_deserialize_def BYTE_LEN_def uint_byte_of_int)
  then show ?thesis
    using ser by (simp add: h_def)
qed

theorem int32_round_trip_witness:
  "- (2 ^ 31) \<le> (- 5 :: int) \<and> (- 5 :: int) < 2 ^ 31 \<and>
   int32_serialize (Number (- 5)) = Inr [0xFF, 0xFF, 0xFF, 0xFB] \<and>
   int32_deserialize [0xFF, 0xFF, 0xFF, 0xFB] = Inr (Number (- 5))"
proof -
  have e: "[word_of_int ((- 5) div 2 ^ 24), word_of_int ((- 5) div 2 ^ 16),
            word_of_int ((- 5) div 2 ^ 8), word_of_int (- 5)] = [0xFF, 0xFF, 0xFF, 0xFB :: byte]"
    by simp
  show ?thesis
    using int32_round_trip [of "- 5"] unfolding e by simp
qed

end
